theory Spec2Isabelle
  imports Main "HOL-Library.Word"
begin

unbundle bit_operations_syntax

section \<open>Platform and external collaborators\<close>

text \<open>
  The embedding follows \<^verbatim>\<open>include/bitmanip/wbits.hpp\<close>. The integer \<^verbatim>\<open>Int\<close> of the
  \<^verbatim>\<open>wide\<close> functions is an \<open>'a word\<close>, so \<open>LENGTH('a)\<close> is \<^verbatim>\<open>typeBits\<close>. The platform is
  LP64: \<^verbatim>\<open>std::size_t\<close> and \<^verbatim>\<open>uintmax_t\<close> have 64 bits, \<^verbatim>\<open>int\<close> has 32 bits and
  \<^verbatim>\<open>unsigned char\<close> has 8 bits. Arrays are lists, the lowest word first; a function that
  writes into \<^verbatim>\<open>dest\<close> returns the new array.
\<close>

type_synonym size_t = "64 word"
type_synonym valueType = "64 word"

definition popCount_word :: "'a::len word \<Rightarrow> nat" where
  \<comment> \<open>Modelled from the spec: the single-word \<^verbatim>\<open>popCount(Int)\<close> of \<^verbatim>\<open>bitmanip/bitcount.hpp\<close>,
      which is not part of the sources: given one word, the count of set bits.\<close>
  "popCount_word w = length (filter (bit w) [0..<LENGTH('a)])"

definition rotateLeft :: "'a::len word \<Rightarrow> nat \<Rightarrow> 'a word" where
  \<comment> \<open>Modelled from the spec: \<^verbatim>\<open>rotateLeft\<close> of \<^verbatim>\<open>bitmanip/bitrot.hpp\<close>, which is not part of
      the sources: the word rotated circularly to the left by an amount below its width.\<close>
  "rotateLeft n rot = word_rotl rot n"

definition rotateRight :: "'a::len word \<Rightarrow> nat \<Rightarrow> 'a word" where
  \<comment> \<open>Modelled from the spec: \<^verbatim>\<open>rotateRight\<close> of \<^verbatim>\<open>bitmanip/bitrot.hpp\<close>, which is not part of
      the sources: the word rotated circularly to the right by an amount below its width.\<close>
  "rotateRight n rot = word_rotr rot n"

definition divCeil :: "nat \<Rightarrow> nat \<Rightarrow> nat" where
  \<comment> \<open>Modelled from the spec: \<^verbatim>\<open>divCeil\<close> of \<^verbatim>\<open>bitmanip/intdiv.hpp\<close>, which is not part of the
      sources: the quotient rounded up, \<open>size = ceil(BITS / wordBits)\<close>.\<close>
  "divCeil x y = x div y + (if x mod y = 0 then 0 else 1)"

definition unsigned_char :: "nat \<Rightarrow> nat" where
  \<comment> \<open>\<^verbatim>\<open>static_cast<unsigned char>(shift)\<close>\<close>
  "unsigned_char n = n mod 256"

section \<open>Word-array primitives (namespace wide)\<close>

subsection \<open>popCount\<close>

function popCount_loop :: "'a::len word list \<Rightarrow> nat \<Rightarrow> nat \<Rightarrow> size_t \<Rightarrow> size_t" where
  "popCount_loop input count i result =
     (if i < count
      then popCount_loop input count (i + 1) (result + of_nat (popCount_word (input ! i)))
      else result)"
  by pat_completeness auto
termination
  by (relation "measure (\<lambda>(input, count, i, result). count - i)") auto

declare popCount_loop.simps [simp del]

definition popCount :: "'a::len word list \<Rightarrow> nat \<Rightarrow> size_t" where
  "popCount input count = popCount_loop input count 0 0"

subsection \<open>bitNot, bitAnd, bitOr, bitXor\<close>

function bitNot_loop :: "'a::len word list \<Rightarrow> nat \<Rightarrow> nat \<Rightarrow> 'a word list" where
  "bitNot_loop out count i =
     (if i < count then bitNot_loop (out[i := NOT (out ! i)]) count (i + 1) else out)"
  by pat_completeness auto
termination
  by (relation "measure (\<lambda>(out, count, i). count - i)") auto

declare bitNot_loop.simps [simp del]

definition bitNot :: "'a::len word list \<Rightarrow> nat \<Rightarrow> 'a word list" where
  "bitNot out count = bitNot_loop out count 0"

function bitAnd_loop :: "'a::len word list \<Rightarrow> 'a word list \<Rightarrow> nat \<Rightarrow> nat \<Rightarrow> 'a word list" where
  "bitAnd_loop dest r count i =
     (if i < count then bitAnd_loop (dest[i := dest ! i AND r ! i]) r count (i + 1) else dest)"
  by pat_completeness auto
termination
  by (relation "measure (\<lambda>(dest, r, count, i). count - i)") auto

declare bitAnd_loop.simps [simp del]

definition bitAnd :: "'a::len word list \<Rightarrow> 'a word list \<Rightarrow> nat \<Rightarrow> 'a word list" where
  "bitAnd dest r count = bitAnd_loop dest r count 0"

function bitOr_loop :: "'a::len word list \<Rightarrow> 'a word list \<Rightarrow> nat \<Rightarrow> nat \<Rightarrow> 'a word list" where
  "bitOr_loop dest r count i =
     (if i < count then bitOr_loop (dest[i := dest ! i OR r ! i]) r count (i + 1) else dest)"
  by pat_completeness auto
termination
  by (relation "measure (\<lambda>(dest, r, count, i). count - i)") auto

declare bitOr_loop.simps [simp del]

definition bitOr :: "'a::len word list \<Rightarrow> 'a word list \<Rightarrow> nat \<Rightarrow> 'a word list" where
  "bitOr dest r count = bitOr_loop dest r count 0"

function bitXor_loop :: "'a::len word list \<Rightarrow> 'a word list \<Rightarrow> nat \<Rightarrow> nat \<Rightarrow> 'a word list" where
  "bitXor_loop dest r count i =
     (if i < count then bitXor_loop (dest[i := dest ! i XOR r ! i]) r count (i + 1) else dest)"
  by pat_completeness auto
termination
  by (relation "measure (\<lambda>(dest, r, count, i). count - i)") auto

declare bitXor_loop.simps [simp del]

definition bitXor :: "'a::len word list \<Rightarrow> 'a word list \<Rightarrow> nat \<Rightarrow> 'a word list" where
  "bitXor dest r count = bitXor_loop dest r count 0"

subsection \<open>leftShift\<close>

text \<open>
  \<^verbatim>\<open>for (std::size_t i = count; i-- > 1;) dest[i] = dest[i - 1];\<close> The test reads \<open>i\<close>
  before the decrement, the body runs with the decremented index.
\<close>

fun leftShift_move :: "'a word list \<Rightarrow> nat \<Rightarrow> 'a word list" where
  "leftShift_move dest i =
     (if i > 1
      then let j = i - 1 in leftShift_move (dest[j := dest ! (j - 1)]) j
      else dest)"

declare leftShift_move.simps [simp del]

text \<open>
  \<^verbatim>\<open>for (; shift >= typeBits; shift -= typeBits) { ...; dest[0] = 0; }\<close> The counter
  \<^verbatim>\<open>shift\<close> is read as a natural number: the guard excludes a wrap-around of the
  subtraction.
\<close>

function leftShift_words :: "'a::len word list \<Rightarrow> nat \<Rightarrow> nat \<Rightarrow> 'a word list \<times> nat" where
  "leftShift_words dest shift count =
     (if shift \<ge> LENGTH('a)
      then leftShift_words ((leftShift_move dest count)[0 := 0]) (shift - LENGTH('a)) count
      else (dest, shift))"
  by pat_completeness auto
termination
  by (relation "measure (\<lambda>(dest, shift, count). shift)")
     (auto intro!: diff_less intro: less_le_trans [OF len_gt_0])

declare leftShift_words.simps [simp del]

text \<open>
  \<^verbatim>\<open>for (std::size_t i = count - 1; i-- > 0;) { ... }\<close> with the rotation of \<^verbatim>\<open>dest[i]\<close> and
  the two plain assignments to \<^verbatim>\<open>dest[i + 0]\<close> and \<^verbatim>\<open>dest[i + 1]\<close>.
\<close>

fun leftShift_carry :: "'a::len word list \<Rightarrow> nat \<Rightarrow> 'a word \<Rightarrow> nat \<Rightarrow> 'a word list" where
  "leftShift_carry dest shift carryMask i =
     (if i > 0
      then let j = i - 1;
               shifted = rotateLeft (dest ! j) (unsigned_char shift);
               dest1 = dest[j + 0 := shifted AND NOT carryMask];
               dest2 = dest1[j + 1 := shifted AND carryMask]
           in leftShift_carry dest2 shift carryMask j
      else dest)"

declare leftShift_carry.simps [simp del]

text \<open>
  For an \<^verbatim>\<open>Int\<close> narrower than \<^verbatim>\<open>int\<close> the operands of \<^verbatim>\<open>~\<close>, \<^verbatim>\<open><<\<close> and \<^verbatim>\<open>&\<close> are promoted
  to \<^verbatim>\<open>int\<close>; the value converted back to \<^verbatim>\<open>Int\<close> is the one computed on \<open>'a word\<close> here.
\<close>

definition leftShift :: "'a::len word list \<Rightarrow> 'a word \<Rightarrow> nat \<Rightarrow> 'a word list" where
  "leftShift dest shift count =
     (case leftShift_words dest (unat shift) count of (dest1, shift1) \<Rightarrow>
        if shift1 = 0 then dest1
        else let carryMask = NOT (push_bit shift1 (NOT 0));
                 dest2 = dest1[count - 1 := push_bit shift1 (dest1 ! (count - 1))]
             in leftShift_carry dest2 shift1 carryMask (count - 1))"

subsection \<open>rightShift\<close>

text \<open>
  \<^verbatim>\<open>for (std::size_t i = 0; i < count - 1; ++i) dest[i] = dest[i + 1];\<close> The array has at
  least one word, so \<^verbatim>\<open>count - 1\<close> does not wrap around.
\<close>

function rightShift_move :: "'a word list \<Rightarrow> nat \<Rightarrow> nat \<Rightarrow> 'a word list" where
  "rightShift_move dest count i =
     (if i < count - 1
      then rightShift_move (dest[i := dest ! (i + 1)]) count (i + 1)
      else dest)"
  by pat_completeness auto
termination
  by (relation "measure (\<lambda>(dest, count, i). count - 1 - i)") auto

declare rightShift_move.simps [simp del]

function rightShift_words :: "'a::len word list \<Rightarrow> nat \<Rightarrow> nat \<Rightarrow> 'a word list \<times> nat" where
  "rightShift_words dest shift count =
     (if shift \<ge> LENGTH('a)
      then rightShift_words ((rightShift_move dest count 0)[count - 1 := 0]) (shift - LENGTH('a)) count
      else (dest, shift))"
  by pat_completeness auto
termination
  by (relation "measure (\<lambda>(dest, shift, count). shift)")
     (auto intro!: diff_less intro: less_le_trans [OF len_gt_0])

declare rightShift_words.simps [simp del]

text \<open>\<^verbatim>\<open>for (std::size_t i = 1; i < count; ++i) { ... }\<close>\<close>

function rightShift_carry :: "'a::len word list \<Rightarrow> nat \<Rightarrow> 'a word \<Rightarrow> nat \<Rightarrow> nat \<Rightarrow> 'a word list" where
  "rightShift_carry dest shift carryMask count i =
     (if i < count
      then let shifted = rotateRight (dest ! i) (unsigned_char shift);
               dest1 = dest[i - 0 := shifted AND NOT carryMask];
               dest2 = dest1[i - 1 := shifted AND carryMask]
           in rightShift_carry dest2 shift carryMask count (i + 1)
      else dest)"
  by pat_completeness auto
termination
  by (relation "measure (\<lambda>(dest, shift, carryMask, count, i). count - i)") auto

declare rightShift_carry.simps [simp del]

text \<open>
  \<^verbatim>\<open>Int carryMask = ~(~Int{0} >> shift);\<close> For an \<^verbatim>\<open>Int\<close> narrower than \<^verbatim>\<open>int\<close> the operand
  \<^verbatim>\<open>~Int{0}\<close> is the \<^verbatim>\<open>int\<close> value -1 after promotion, its right shift is arithmetic and
  stays -1, and the mask is 0. From the width of \<^verbatim>\<open>int\<close> on, the shift is the logical one
  of \<^verbatim>\<open>Int\<close>.
\<close>

definition rightShift_carryMask :: "nat \<Rightarrow> 'a::len word" where
  "rightShift_carryMask shift =
     (if LENGTH('a) < 32 then 0 else NOT (drop_bit shift (NOT 0)))"

definition rightShift :: "'a::len word list \<Rightarrow> 'a word \<Rightarrow> nat \<Rightarrow> 'a word list" where
  "rightShift dest shift count =
     (case rightShift_words dest (unat shift) count of (dest1, shift1) \<Rightarrow>
        if shift1 = 0 then dest1
        else let carryMask = rightShift_carryMask shift1;
                 dest2 = dest1[0 := drop_bit shift1 (dest1 ! 0)]
             in rightShift_carry dest2 shift1 carryMask count 1)"


section \<open>The shift primitives with a log of their accesses\<close>

text \<open>
  The same two functions, statement by statement, that also record every array element
  they read or write and the amount of every single-word shift and rotation, in program
  order. The bitwise \<^verbatim>\<open>&\<close> and \<^verbatim>\<open>~\<close> leave no entry.
\<close>

datatype event = Read nat | Write nat | Shift nat | Rotate nat

fun leftShift_move_log ::
  "'a word list \<Rightarrow> nat \<Rightarrow> event list \<Rightarrow> 'a word list \<times> event list" where
  "leftShift_move_log dest i log =
     (if i > 1
      then let j = i - 1
           in leftShift_move_log (dest[j := dest ! (j - 1)]) j (log @ [Read (j - 1), Write j])
      else (dest, log))"

declare leftShift_move_log.simps [simp del]

function leftShift_words_log ::
  "'a::len word list \<Rightarrow> nat \<Rightarrow> nat \<Rightarrow> event list \<Rightarrow> 'a word list \<times> nat \<times> event list" where
  "leftShift_words_log dest shift count log =
     (if shift \<ge> LENGTH('a)
      then case leftShift_move_log dest count log of (dest1, log1) \<Rightarrow>
             leftShift_words_log (dest1[0 := 0]) (shift - LENGTH('a)) count (log1 @ [Write 0])
      else (dest, shift, log))"
  by pat_completeness auto
termination
  by (relation "measure (\<lambda>(dest, shift, count, log). shift)")
     (auto intro!: diff_less intro: less_le_trans [OF len_gt_0])

declare leftShift_words_log.simps [simp del]

fun leftShift_carry_log ::
  "'a::len word list \<Rightarrow> nat \<Rightarrow> 'a word \<Rightarrow> nat \<Rightarrow> event list \<Rightarrow> 'a word list \<times> event list" where
  "leftShift_carry_log dest shift carryMask i log =
     (if i > 0
      then let j = i - 1;
               shifted = rotateLeft (dest ! j) (unsigned_char shift);
               dest1 = dest[j + 0 := shifted AND NOT carryMask];
               dest2 = dest1[j + 1 := shifted AND carryMask]
           in leftShift_carry_log dest2 shift carryMask j
                (log @ [Read j, Rotate (unsigned_char shift), Write (j + 0), Write (j + 1)])
      else (dest, log))"

declare leftShift_carry_log.simps [simp del]

definition leftShift_log :: "'a::len word list \<Rightarrow> 'a word \<Rightarrow> nat \<Rightarrow> 'a word list \<times> event list" where
  "leftShift_log dest shift count =
     (case leftShift_words_log dest (unat shift) count [] of (dest1, shift1, log1) \<Rightarrow>
        if shift1 = 0 then (dest1, log1)
        else let carryMask = NOT (push_bit shift1 (NOT 0));
                 log2 = log1 @ [Shift shift1];
                 dest2 = dest1[count - 1 := push_bit shift1 (dest1 ! (count - 1))];
                 log3 = log2 @ [Read (count - 1), Shift shift1, Write (count - 1)]
             in leftShift_carry_log dest2 shift1 carryMask (count - 1) log3)"

function rightShift_move_log ::
  "'a word list \<Rightarrow> nat \<Rightarrow> nat \<Rightarrow> event list \<Rightarrow> 'a word list \<times> event list" where
  "rightShift_move_log dest count i log =
     (if i < count - 1
      then rightShift_move_log (dest[i := dest ! (i + 1)]) count (i + 1)
             (log @ [Read (i + 1), Write i])
      else (dest, log))"
  by pat_completeness auto
termination
  by (relation "measure (\<lambda>(dest, count, i, log). count - 1 - i)") auto

declare rightShift_move_log.simps [simp del]

function rightShift_words_log ::
  "'a::len word list \<Rightarrow> nat \<Rightarrow> nat \<Rightarrow> event list \<Rightarrow> 'a word list \<times> nat \<times> event list" where
  "rightShift_words_log dest shift count log =
     (if shift \<ge> LENGTH('a)
      then case rightShift_move_log dest count 0 log of (dest1, log1) \<Rightarrow>
             rightShift_words_log (dest1[count - 1 := 0]) (shift - LENGTH('a)) count
               (log1 @ [Write (count - 1)])
      else (dest, shift, log))"
  by pat_completeness auto
termination
  by (relation "measure (\<lambda>(dest, shift, count, log). shift)")
     (auto intro!: diff_less intro: less_le_trans [OF len_gt_0])

declare rightShift_words_log.simps [simp del]

function rightShift_carry_log ::
  "'a::len word list \<Rightarrow> nat \<Rightarrow> 'a word \<Rightarrow> nat \<Rightarrow> nat \<Rightarrow> event list \<Rightarrow> 'a word list \<times> event list" where
  "rightShift_carry_log dest shift carryMask count i log =
     (if i < count
      then let shifted = rotateRight (dest ! i) (unsigned_char shift);
               dest1 = dest[i - 0 := shifted AND NOT carryMask];
               dest2 = dest1[i - 1 := shifted AND carryMask]
           in rightShift_carry_log dest2 shift carryMask count (i + 1)
                (log @ [Read i, Rotate (unsigned_char shift), Write (i - 0), Write (i - 1)])
      else (dest, log))"
  by pat_completeness auto
termination
  by (relation "measure (\<lambda>(dest, shift, carryMask, count, i, log). count - i)") auto

declare rightShift_carry_log.simps [simp del]

definition rightShift_log :: "'a::len word list \<Rightarrow> 'a word \<Rightarrow> nat \<Rightarrow> 'a word list \<times> event list" where
  "rightShift_log dest shift count =
     (case rightShift_words_log dest (unat shift) count [] of (dest1, shift1, log1) \<Rightarrow>
        if shift1 = 0 then (dest1, log1)
        else let carryMask = rightShift_carryMask shift1;
                 log2 = log1 @ [Shift shift1];
                 dest2 = dest1[0 := drop_bit shift1 (dest1 ! 0)];
                 log3 = log2 @ [Read 0, Shift shift1, Write 0]
             in rightShift_carry_log dest2 shift1 carryMask count 1 log3)"

section \<open>The class template Bits\<close>

text \<open>
  An object of \<^verbatim>\<open>Bits<BITS>\<close> is its member array \<^verbatim>\<open>data_\<close> (here \<open>data\<close>), a list of
  \<open>Bits_size BITS\<close> words (\<^verbatim>\<open>size_\<close>, returned by \<^verbatim>\<open>size()\<close>); the template argument
  \<^verbatim>\<open>BITS\<close> is passed to every member function. The static members are functions of
  \<^verbatim>\<open>BITS\<close>. \<^verbatim>\<open>sizeof(valueType)\<close> is 8.
\<close>

definition Bits_size :: "nat \<Rightarrow> nat" where
  "Bits_size BITS = divCeil BITS (8 * 8)"

definition bitSpill :: "nat \<Rightarrow> nat" where
  "bitSpill BITS = BITS mod (8 * Bits_size BITS)"

text \<open>
  \<^verbatim>\<open>static constexpr std::size_t spillMask = ~valueType{0} << bitSpill;\<close> A shift by 64 or
  more is undefined, and inside this constant initialiser it makes the instantiation
  ill-formed: the mask is \<open>None\<close> there.
\<close>

definition spillMask :: "nat \<Rightarrow> size_t option" where
  "spillMask BITS =
     (if bitSpill BITS < 64 then Some (push_bit (bitSpill BITS) (NOT 0)) else None)"

definition fixBack :: "nat \<Rightarrow> valueType list \<Rightarrow> valueType list option" where
  "fixBack BITS data =
     (case spillMask BITS of
        None \<Rightarrow> None
      | Some m \<Rightarrow> Some (data[Bits_size BITS - 1 := data ! (Bits_size BITS - 1) AND m]))"

text \<open>\<^verbatim>\<open>constexpr Bits(valueType value) : data_{} { data_[0] = value; fixBack(); }\<close>\<close>

definition Bits_value :: "nat \<Rightarrow> valueType \<Rightarrow> valueType list option" where
  "Bits_value BITS v = fixBack BITS ((replicate (Bits_size BITS) 0)[0 := v])"

function clear_loop :: "valueType list \<Rightarrow> nat \<Rightarrow> nat \<Rightarrow> valueType list" where
  "clear_loop data n i =
     (if i < n then clear_loop (data[i := 0]) n (i + 1) else data)"
  by pat_completeness auto
termination
  by (relation "measure (\<lambda>(data, n, i). n - i)") auto

declare clear_loop.simps [simp del]

definition clear :: "nat \<Rightarrow> valueType list \<Rightarrow> valueType list" where
  "clear BITS data = clear_loop data (Bits_size BITS) 0"

function operator_bool_loop :: "valueType list \<Rightarrow> nat \<Rightarrow> nat \<Rightarrow> bool" where
  "operator_bool_loop data n i =
     (if i < n
      then (if data ! i \<noteq> 0 then True else operator_bool_loop data n (i + 1))
      else False)"
  by pat_completeness auto
termination
  by (relation "measure (\<lambda>(data, n, i). n - i)") auto

declare operator_bool_loop.simps [simp del]

definition operator_bool :: "nat \<Rightarrow> valueType list \<Rightarrow> bool" where
  "operator_bool BITS data = operator_bool_loop data (Bits_size BITS) 0"

definition operator_not :: "nat \<Rightarrow> valueType list \<Rightarrow> valueType list option" where
  "operator_not BITS data = fixBack BITS (bitNot data (Bits_size BITS))"

text \<open>\<^verbatim>\<open>operator=(valueType value)\<close>: \<^verbatim>\<open>clear(); data_[0] = value;\<close>\<close>

definition operator_assign_value :: "nat \<Rightarrow> valueType list \<Rightarrow> valueType \<Rightarrow> valueType list" where
  "operator_assign_value BITS data v = (clear BITS data)[0 := v]"

text \<open>
  The compound assignments take \<^verbatim>\<open>other\<close> by value and write into \<^verbatim>\<open>data_\<close>; the binary
  operators write into the copy \<^verbatim>\<open>other\<close> and return it.
\<close>

definition operator_and_assign :: "nat \<Rightarrow> valueType list \<Rightarrow> valueType list \<Rightarrow> valueType list" where
  "operator_and_assign BITS data other = bitAnd data other (Bits_size BITS)"

definition operator_or_assign :: "nat \<Rightarrow> valueType list \<Rightarrow> valueType list \<Rightarrow> valueType list" where
  "operator_or_assign BITS data other = bitOr data other (Bits_size BITS)"

definition operator_xor_assign :: "nat \<Rightarrow> valueType list \<Rightarrow> valueType list \<Rightarrow> valueType list" where
  "operator_xor_assign BITS data other = bitXor data other (Bits_size BITS)"

definition operator_shl_assign :: "nat \<Rightarrow> valueType list \<Rightarrow> valueType \<Rightarrow> valueType list option" where
  "operator_shl_assign BITS data shift = fixBack BITS (leftShift data shift (Bits_size BITS))"

definition operator_shr_assign :: "nat \<Rightarrow> valueType list \<Rightarrow> valueType \<Rightarrow> valueType list" where
  "operator_shr_assign BITS data shift = rightShift data shift (Bits_size BITS)"

definition operator_and :: "nat \<Rightarrow> valueType list \<Rightarrow> valueType list \<Rightarrow> valueType list" where
  "operator_and BITS data other = bitAnd other data (Bits_size BITS)"

definition operator_or :: "nat \<Rightarrow> valueType list \<Rightarrow> valueType list \<Rightarrow> valueType list" where
  "operator_or BITS data other = bitOr other data (Bits_size BITS)"

definition operator_xor :: "nat \<Rightarrow> valueType list \<Rightarrow> valueType list \<Rightarrow> valueType list" where
  "operator_xor BITS data other = bitXor other data (Bits_size BITS)"

section \<open>The properties of the specification, in its words\<close>

text \<open>
  The unsigned integer that a word array represents, the lowest word first.
\<close>

fun array_value :: "'a::len word list \<Rightarrow> nat" where
  "array_value [] = 0"
| "array_value (w # ws) = unat w + 2 ^ LENGTH('a) * array_value ws"

text \<open>
  The spill masking invariant: every bit of the array at a position from \<open>BITS\<close> on is
  zero. Position \<open>n\<close> is bit \<open>n mod 64\<close> of word \<open>n div 64\<close>; the positions from \<open>BITS\<close>
  on all lie in the topmost word.
\<close>

definition spill_invariant :: "nat \<Rightarrow> valueType list \<Rightarrow> bool" where
  "spill_invariant BITS data =
     list_all (\<lambda>n. \<not> bit (data ! (n div 64)) (n mod 64)) [BITS ..< 64 * Bits_size BITS]"


text \<open>
  An access stays inside an array of \<open>count\<close> words, and the amount of a single-word
  shift or rotation lies strictly between 0 and the word width.
\<close>

fun event_ok :: "nat \<Rightarrow> nat \<Rightarrow> event \<Rightarrow> bool" where
  "event_ok count wordBits (Read i) = (i < count)"
| "event_ok count wordBits (Write i) = (i < count)"
| "event_ok count wordBits (Shift n) = (0 < n \<and> n < wordBits)"
| "event_ok count wordBits (Rotate n) = (0 < n \<and> n < wordBits)"

section \<open>Evaluations of the shift primitives\<close>

text \<open>
  Claim C1. The specification reads \<open>leftShift\<close> and \<open>rightShift\<close> as the logical shift
  of the integer the array represents, and gives \<open>leftShift([1, 0], 9, 2) = [0, 2]\<close> on
  8-bit words. The carry loop assigns \<^verbatim>\<open>dest[i + 1] = shifted & carryMask\<close> where the
  carried bits would have to be joined with the shifted neighbour, so the word shifted
  one step before is overwritten: the code returns \<open>[0, 0]\<close> there, the value 0 instead
  of 512. The right shift loses the low word's own bits in the same way, here on 64-bit
  words.
\<close>

theorem shift_carry_overwrites_neighbour:
  "leftShift [1, 0 :: 8 word] 9 2 = [0, 0]
   \<and> array_value (leftShift [1, 0 :: 8 word] 9 2)
       \<noteq> (array_value [1, 0 :: 8 word] * 2 ^ 9) mod 2 ^ (2 * 8)
   \<and> rightShift [2, 1 :: 64 word] 1 2 = [0x8000000000000000, 0]
   \<and> array_value (rightShift [2, 1 :: 64 word] 1 2)
       \<noteq> array_value [2, 1 :: 64 word] div 2 ^ 1"
proof -
  have l: "leftShift [1, 0 :: 8 word] 9 2 = [0, 0]"
    by code_simp
  have lv: "array_value (leftShift [1, 0 :: 8 word] 9 2)
            \<noteq> (array_value [1, 0 :: 8 word] * 2 ^ 9) mod 2 ^ (2 * 8)"
    unfolding l by simp
  have r: "rightShift [2, 1 :: 64 word] 1 2 = [0x8000000000000000, 0]"
    by code_simp
  have rv: "array_value (rightShift [2, 1 :: 64 word] 1 2)
            \<noteq> array_value [2, 1 :: 64 word] div 2 ^ 1"
    unfolding r by simp
  from l lv r rv show ?thesis by blast
qed

text \<open>
  Claim C4. A left shift followed by a right shift by the same amount is said to give the
  original array with its top \<open>s\<close> bits zeroed, that is the original value modulo
  \<open>2 ^ (count * w - s)\<close>. On the two 64-bit words \<open>[1, 1]\<close> and \<open>s = 1\<close> the code gives
  \<open>[2, 0]\<close> after the left shift and \<open>[0, 0]\<close> after the right shift.
\<close>

theorem shift_round_trip_loses_words:
  "leftShift [1, 1 :: 64 word] 1 2 = [2, 0]
   \<and> rightShift (leftShift [1, 1 :: 64 word] 1 2) 1 2 = [0, 0]
   \<and> array_value (rightShift (leftShift [1, 1 :: 64 word] 1 2) 1 2)
       \<noteq> array_value [1, 1 :: 64 word] mod 2 ^ (2 * 64 - 1)"
proof -
  have l: "leftShift [1, 1 :: 64 word] 1 2 = [2, 0]"
    by code_simp
  have r: "rightShift [2, 0 :: 64 word] 1 2 = [0, 0]"
    by code_simp
  have v: "array_value [0, 0 :: 64 word] \<noteq> array_value [1, 1 :: 64 word] mod 2 ^ (2 * 64 - 1)"
    by simp
  from l r v show ?thesis by simp
qed

section \<open>Evaluations of the spill mask\<close>

text \<open>Without spill bits the mask is all-ones.\<close>

lemma spillMask_no_spill: "bitSpill BITS = 0 \<Longrightarrow> spillMask BITS = Some (- 1)"
  by (simp add: spillMask_def)

text \<open>
  Claim C3. The spill-bit count is said to be \<open>BITS mod (wordBits * size)\<close> and the
  fix-up mask to keep exactly the low spill bits. The code divides by
  \<^verbatim>\<open>sizeof(valueType) * size_\<close>, bytes instead of bits, and its mask
  \<^verbatim>\<open>~valueType{0} << bitSpill\<close> has the low \<open>bitSpill\<close> bits clear and all others set.
  For \<open>BITS = 12\<close>: one word, \<open>bitSpill = 4\<close> and not \<open>12\<close>, and \<open>fixBack\<close> turns
  \<open>0xFFFF\<close> into \<open>0xFFF0\<close> where keeping the low 12 bits gives \<open>0x0FFF\<close>.
\<close>

theorem spillMask_12_clears_low_bits:
  "Bits_size 12 = 1
   \<and> bitSpill 12 = 4
   \<and> bitSpill 12 \<noteq> 12 mod (64 * Bits_size 12)
   \<and> spillMask 12 = Some 0xFFFFFFFFFFFFFFF0
   \<and> fixBack 12 [0xFFFF] = Some [0xFFF0]
   \<and> take_bit 12 (0xFFFF :: valueType) = 0x0FFF"
proof -
  have s: "Bits_size 12 = 1"
    by code_simp
  have b: "bitSpill 12 = 4"
    by code_simp
  have m: "spillMask 12 = Some 0xFFFFFFFFFFFFFFF0"
    by code_simp
  have f: "fixBack 12 [0xFFFF] = Some [0xFFF0]"
    by code_simp
  have t: "take_bit 12 (0xFFFF :: valueType) = 0x0FFF"
    by code_simp
  from s b m f t show ?thesis by simp
qed

text \<open>
  Claim C2. Every constructed or mutated value is said to have all bits at positions from
  \<open>BITS\<close> on equal to zero. For \<open>BITS = 12\<close> the constructor from the word \<open>0xFFFF\<close>
  leaves \<open>0xFFF0\<close>, with bits 12 to 15 set; the complement of the zero value has bits 12
  to 63 set; and the assignment of the word \<open>0xFFFF\<close> applies no mask at all.
\<close>

theorem spill_invariant_broken_12:
  "Bits_value 12 0xFFFF = Some [0xFFF0]
   \<and> \<not> spill_invariant 12 [0xFFF0]
   \<and> operator_not 12 [0] = Some [0xFFFFFFFFFFFFFFF0]
   \<and> \<not> spill_invariant 12 [0xFFFFFFFFFFFFFFF0]
   \<and> operator_assign_value 12 [0] 0xFFFF = [0xFFFF]
   \<and> \<not> spill_invariant 12 [0xFFFF]"
proof -
  have c: "Bits_value 12 0xFFFF = Some [0xFFF0]"
    by code_simp
  have ci: "\<not> spill_invariant 12 [0xFFF0]"
    by code_simp
  have n: "operator_not 12 [0] = Some [0xFFFFFFFFFFFFFFF0]"
    by code_simp
  have ni: "\<not> spill_invariant 12 [0xFFFFFFFFFFFFFFF0]"
    by code_simp
  have a: "operator_assign_value 12 [0] 0xFFFF = [0xFFFF]"
    by code_simp
  have ai: "\<not> spill_invariant 12 [0xFFFF]"
    by code_simp
  from c ci n ni a ai show ?thesis by blast
qed

text \<open>
  The binary operators on two copies of one value: \<open>x & x\<close> and \<open>x | x\<close> are \<open>x\<close>, and
  \<open>x ^ x\<close> is the all-zero value.
\<close>

lemma bitAnd_loop_same: "dest = r \<Longrightarrow> bitAnd_loop dest r count i = r"
proof (induction dest r count i rule: bitAnd_loop.induct)
  case (1 dest r count i)
  then show ?case
    by (subst bitAnd_loop.simps) simp
qed

lemma bitOr_loop_same: "dest = r \<Longrightarrow> bitOr_loop dest r count i = r"
proof (induction dest r count i rule: bitOr_loop.induct)
  case (1 dest r count i)
  then show ?case
    by (subst bitOr_loop.simps) simp
qed

lemma bitXor_loop_length: "length (bitXor_loop dest r count i) = length dest"
proof (induction dest r count i rule: bitXor_loop.induct)
  case (1 dest r count i)
  then show ?case
    by (subst bitXor_loop.simps) simp
qed

lemma bitXor_loop_nth:
  "k < length dest \<Longrightarrow>
     bitXor_loop dest r count i ! k
       = (if i \<le> k \<and> k < count then dest ! k XOR r ! k else dest ! k)"
proof (induction dest r count i rule: bitXor_loop.induct)
  case (1 dest r count i)
  show ?case
  proof (cases "i < count")
    case True
    show ?thesis
    proof (cases "k = i")
      case True
      with \<open>i < count\<close> "1" show ?thesis
        by (subst bitXor_loop.simps) simp
    next
      case False
      with \<open>i < count\<close> "1" show ?thesis
        by (subst bitXor_loop.simps) (auto simp: nth_list_update)
    qed
  next
    case False
    then show ?thesis
      by (subst bitXor_loop.simps) auto
  qed
qed

lemma operator_and_same: "operator_and BITS x x = x"
  by (simp add: operator_and_def bitAnd_def bitAnd_loop_same)

lemma operator_or_same: "operator_or BITS x x = x"
  by (simp add: operator_or_def bitOr_def bitOr_loop_same)

lemma operator_xor_same:
  "length x = Bits_size BITS \<Longrightarrow> operator_xor BITS x x = replicate (Bits_size BITS) 0"
  by (rule nth_equalityI)
     (simp_all add: operator_xor_def bitXor_def bitXor_loop_length bitXor_loop_nth)

text \<open>
  Claim C5. The double complement is said to restore every value that satisfies the spill
  invariant. For \<open>BITS = 12\<close> the value \<open>[1]\<close>, reached by assigning the word 1, has no
  bit at position 12 or above, and its double complement is \<open>[0]\<close>: each \<open>fixBack\<close>
  clears the low four bits.
\<close>

theorem double_complement_12_loses_low_bits:
  "operator_assign_value 12 [0] 1 = [1]
   \<and> spill_invariant 12 [1]
   \<and> operator_not 12 [1] = Some [0xFFFFFFFFFFFFFFF0]
   \<and> operator_not 12 [0xFFFFFFFFFFFFFFF0] = Some [0]"
proof -
  have a: "operator_assign_value 12 [0] 1 = [1]"
    by code_simp
  have i: "spill_invariant 12 [1]"
    by code_simp
  have n1: "operator_not 12 [1] = Some [0xFFFFFFFFFFFFFFF0]"
    by code_simp
  have n2: "operator_not 12 [0xFFFFFFFFFFFFFFF0] = Some [0]"
    by code_simp
  from a i n1 n2 show ?thesis by blast
qed

section \<open>Population count\<close>

lemma popCount_loop_sum:
  "popCount_loop input count i result =
     result + (\<Sum>k\<leftarrow>[i..<count]. of_nat (popCount_word (input ! k)))"
proof (induction input count i result rule: popCount_loop.induct)
  case (1 input count i result)
  show ?case
  proof (cases "i < count")
    case True
    with "1" show ?thesis
      by (subst popCount_loop.simps) (simp add: upt_conv_Cons add.assoc)
  next
    case False
    then show ?thesis
      by (subst popCount_loop.simps) simp
  qed
qed

lemma popCount_sum_list:
  "popCount input (length input) = (\<Sum>w\<leftarrow>input. of_nat (popCount_word w))"
proof -
  have "map (\<lambda>k. of_nat (popCount_word (input ! k)) :: size_t) [0..<length input]
        = map (\<lambda>w. of_nat (popCount_word w)) input"
    by (rule nth_equalityI) simp_all
  then show ?thesis
    by (simp add: popCount_def popCount_loop_sum)
qed

lemma popCount_zero: "popCount input 0 = 0"
  by (simp add: popCount_def popCount_loop_sum)

text \<open>
  Claim C9. For two word arrays \<open>a\<close> of \<open>m\<close> words and \<open>b\<close> of \<open>n\<close> words, the
  population count of the concatenated array is the sum of the two population counts,
  and the population count over zero words is 0. The sum is the one of \<^verbatim>\<open>std::size_t\<close>.
\<close>

theorem popCount_append:
  "length a = m \<Longrightarrow> length b = n \<Longrightarrow>
     popCount (a @ b) (m + n) = popCount a m + popCount b n \<and> popCount c 0 = 0"
  using popCount_sum_list [of "a @ b"] popCount_sum_list [of a] popCount_sum_list [of b]
  by (auto simp: popCount_zero)

theorem popCount_append_witness:
  "length [3, 7 :: 8 word] = 2 \<and> length [255 :: 8 word] = 1
   \<and> popCount ([3, 7] @ [255 :: 8 word]) (2 + 1) = popCount [3, 7 :: 8 word] 2 + popCount [255 :: 8 word] 1
   \<and> popCount [3, 7 :: 8 word] 2 = 5 \<and> popCount [255 :: 8 word] 1 = 8
   \<and> popCount ([] :: 8 word list) 0 = 0"
proof -
  have h1: "length [3, 7 :: 8 word] = 2" by simp
  have h2: "length [255 :: 8 word] = 1" by simp
  have v1: "popCount [3, 7 :: 8 word] 2 = 5" by code_simp
  have v2: "popCount [255 :: 8 word] 1 = 8" by code_simp
  from popCount_append [OF h1 h2, of "[] :: 8 word list"] h1 h2 v1 v2 show ?thesis by simp
qed

section \<open>Construction, assignment and boolean conversion of Bits\<close>

lemma Bits_size_pos: "0 < BITS \<Longrightarrow> 0 < Bits_size BITS"
  by (cases "BITS mod 64 = 0") (auto simp: Bits_size_def divCeil_def)

lemma clear_loop_length: "length (clear_loop data n i) = length data"
proof (induction data n i rule: clear_loop.induct)
  case (1 data n i)
  then show ?case
    by (subst clear_loop.simps) simp
qed

lemma clear_loop_nth:
  "k < length data \<Longrightarrow>
     clear_loop data n i ! k = (if i \<le> k \<and> k < n then 0 else data ! k)"
proof (induction data n i rule: clear_loop.induct)
  case (1 data n i)
  show ?case
  proof (cases "i < n")
    case True
    with "1" show ?thesis
      by (subst clear_loop.simps) (auto simp: nth_list_update)
  next
    case False
    then show ?thesis
      by (subst clear_loop.simps) auto
  qed
qed

lemma clear_replicate: "length data = Bits_size BITS \<Longrightarrow> clear BITS data = replicate (Bits_size BITS) 0"
  by (rule nth_equalityI) (simp_all add: clear_def clear_loop_length clear_loop_nth)

text \<open>
  Claim C10. For every width \<open>BITS > 0\<close> and every word \<open>v\<close>, the assignment from a
  single word leaves word 0 equal to \<open>v\<close> and every higher word zero, with no spill mask
  applied; the constructor from a single word builds the same array and then applies
  \<open>fixBack\<close> to it.
\<close>

theorem operator_assign_value_unmasked:
  "0 < BITS \<Longrightarrow> length data = Bits_size BITS \<Longrightarrow>
     operator_assign_value BITS data v = v # replicate (Bits_size BITS - 1) 0
     \<and> Bits_value BITS v = fixBack BITS (v # replicate (Bits_size BITS - 1) 0)"
proof -
  assume "0 < BITS" and len: "length data = Bits_size BITS"
  then obtain k where k: "Bits_size BITS = Suc k"
    using Bits_size_pos [of BITS] by (cases "Bits_size BITS") auto
  have "operator_assign_value BITS data v = v # replicate k 0"
    by (simp add: operator_assign_value_def clear_replicate [OF len] k)
  moreover have "Bits_value BITS v = fixBack BITS (v # replicate k 0)"
    by (simp add: Bits_value_def k)
  ultimately show ?thesis
    by (simp add: k)
qed

text \<open>
  The witness is \<^verbatim>\<open>Bits<12>\<close>: the assignment of \<open>0xFFFF\<close> keeps all sixteen bits, the
  constructor from \<open>0xFFFF\<close> returns the masked word.
\<close>

theorem operator_assign_value_unmasked_witness:
  "(0 :: nat) < 12 \<and> length [0xABC :: valueType] = Bits_size 12
   \<and> operator_assign_value 12 [0xABC] 0xFFFF = 0xFFFF # replicate (Bits_size 12 - 1) 0
   \<and> Bits_value 12 0xFFFF = fixBack 12 (0xFFFF # replicate (Bits_size 12 - 1) 0)
   \<and> operator_assign_value 12 [0xABC] 0xFFFF = [0xFFFF]
   \<and> Bits_value 12 0xFFFF = Some [0xFFF0]"
proof -
  have h1: "(0 :: nat) < 12" by simp
  have s: "Bits_size 12 = 1" by code_simp
  have h2: "length [0xABC :: valueType] = Bits_size 12" by (simp add: s)
  have f: "fixBack 12 [0xFFFF] = Some [0xFFF0]" by code_simp
  from operator_assign_value_unmasked [OF h1 h2, of "0xFFFF"] h1 h2 s f show ?thesis by simp
qed

lemma operator_bool_loop_iff:
  "operator_bool_loop data n i \<longleftrightarrow> (\<exists>k. i \<le> k \<and> k < n \<and> data ! k \<noteq> 0)"
proof (induction data n i rule: operator_bool_loop.induct)
  case (1 data n i)
  show ?case
  proof (cases "i < n")
    case False
    then show ?thesis
      by (subst operator_bool_loop.simps) auto
  next
    case True
    show ?thesis
    proof (cases "data ! i \<noteq> 0")
      case True
      with \<open>i < n\<close> show ?thesis
        by (subst operator_bool_loop.simps) auto
    next
      case False
      with \<open>i < n\<close> "1" have "operator_bool_loop data n i \<longleftrightarrow> (\<exists>k. i + 1 \<le> k \<and> k < n \<and> data ! k \<noteq> 0)"
        by (subst operator_bool_loop.simps) simp
      also have "\<dots> \<longleftrightarrow> (\<exists>k. i \<le> k \<and> k < n \<and> data ! k \<noteq> 0)"
        using False by (metis Suc_eq_plus1 Suc_leD Suc_leI le_neq_implies_less)
      finally show ?thesis .
    qed
  qed
qed

lemma fixBack_Some:
  "spillMask BITS = Some m \<Longrightarrow>
     fixBack BITS data = Some (data[Bits_size BITS - 1 := data ! (Bits_size BITS - 1) AND m])"
  by (simp add: fixBack_def)

lemma Bits_value_one_word:
  "spillMask BITS = Some m \<Longrightarrow> Bits_size BITS = 1 \<Longrightarrow> Bits_value BITS v = Some [v AND m]"
  by (simp add: Bits_value_def fixBack_Some)

lemma Bits_value_more_words:
  assumes "spillMask BITS = Some m" and "1 < Bits_size BITS"
  shows "Bits_value BITS v = Some (v # replicate (Bits_size BITS - 1) 0)"
proof -
  from assms(2) obtain k where k: "Bits_size BITS = Suc (Suc k)"
    by (cases "Bits_size BITS"; cases "Bits_size BITS - 1") auto
  let ?d = "v # replicate (Suc k) 0"
  have "?d ! Suc k = 0"
    by (simp del: replicate_Suc)
  then have "?d ! Suc k AND m = ?d ! Suc k"
    by simp
  then have upd: "?d[Suc k := ?d ! Suc k AND m] = ?d"
    by (simp only: list_update_id)
  have "Bits_value BITS v = fixBack BITS ?d"
    by (simp add: Bits_value_def k)
  also have "\<dots> = Some (?d[Suc k := ?d ! Suc k AND m])"
    using fixBack_Some [OF assms(1), of ?d] by (simp only: k diff_Suc_1)
  also have "\<dots> = Some ?d"
    by (simp only: upd)
  finally show ?thesis
    by (simp only: k diff_Suc_1)
qed

lemma operator_bool_one_word:
  "Bits_size BITS = 1 \<Longrightarrow> operator_bool BITS [w] \<longleftrightarrow> w \<noteq> 0"
  by (auto simp: operator_bool_def operator_bool_loop_iff)

lemma operator_bool_more_words:
  assumes "0 < Bits_size BITS"
  shows "operator_bool BITS (v # replicate (Bits_size BITS - 1) 0) \<longleftrightarrow> v \<noteq> 0"
proof -
  have "(\<exists>k<Bits_size BITS. (v # replicate (Bits_size BITS - 1) 0) ! k \<noteq> 0) \<longleftrightarrow> v \<noteq> 0"
  proof
    assume "\<exists>k<Bits_size BITS. (v # replicate (Bits_size BITS - 1) 0) ! k \<noteq> 0"
    then obtain k where "k < Bits_size BITS" "(v # replicate (Bits_size BITS - 1) 0) ! k \<noteq> 0"
      by blast
    then show "v \<noteq> 0"
      by (cases k) auto
  next
    assume "v \<noteq> 0"
    with assms show "\<exists>k<Bits_size BITS. (v # replicate (Bits_size BITS - 1) 0) ! k \<noteq> 0"
      by (intro exI [of _ 0]) simp
  qed
  then show ?thesis
    by (simp add: operator_bool_def operator_bool_loop_iff)
qed

lemma Bits_value_zero_false:
  assumes "0 < BITS" and "spillMask BITS = Some m"
  shows "\<exists>x. Bits_value BITS 0 = Some x \<and> \<not> operator_bool BITS x"
proof (cases "Bits_size BITS = 1")
  case True
  then show ?thesis
    using Bits_value_one_word [OF assms(2) True, of 0] operator_bool_one_word [OF True, of 0]
    by simp
next
  case False
  with Bits_size_pos [OF assms(1)] have more: "1 < Bits_size BITS"
    by simp
  show ?thesis
    using Bits_value_more_words [OF assms(2) more, of 0]
      operator_bool_more_words [OF Bits_size_pos [OF assms(1)], of 0]
    by simp
qed

lemma Bits_value_wide_true:
  assumes "spillMask BITS = Some m" and "1 < Bits_size BITS" and "v \<noteq> 0"
  shows "\<exists>x. Bits_value BITS v = Some x \<and> operator_bool BITS x"
proof -
  from assms(2) have pos: "0 < Bits_size BITS"
    by simp
  show ?thesis
    using Bits_value_more_words [OF assms(1, 2), of v] operator_bool_more_words [OF pos, of v]
      assms(3)
    by simp
qed

text \<open>
  A nonzero word that the constructor turns into a value converting to false belongs to
  a width of one word and has all its set bits below \<open>BITS\<close>: masking the bits from
  \<open>BITS\<close> on would keep it whole.
\<close>

lemma and_push_bit_zero_take_bit:
  fixes v :: valueType
  assumes "v AND push_bit k (NOT 0) = 0" and "k \<le> n"
  shows "take_bit n v = v"
proof (rule bit_eqI)
  fix j
  have "\<not> (bit v j \<and> bit (push_bit k (NOT 0 :: valueType)) j)"
    using assms(1) by (metis bit_and_iff bit_0_eq bot_apply bot_bool_def)
  then have "bit v j \<Longrightarrow> j < k"
    by (auto simp: bit_push_bit_iff bit_not_iff bit_mask_iff dest: bit_imp_le_length)
  with assms(2) show "bit (take_bit n v) j \<longleftrightarrow> bit v j"
    by (auto simp: bit_take_bit_iff)
qed

lemma Bits_value_false_within_width:
  assumes "0 < BITS" and "Bits_value BITS v = Some x" and "\<not> operator_bool BITS x"
    and "v \<noteq> 0"
  shows "Bits_size BITS = 1 \<and> take_bit BITS v = v"
proof -
  from assms(2) have lt: "bitSpill BITS < 64"
    and m: "spillMask BITS = Some (push_bit (bitSpill BITS) (NOT 0))"
    by (auto simp: Bits_value_def fixBack_def spillMask_def split: option.splits if_splits)
  have one: "Bits_size BITS = 1"
  proof (rule ccontr)
    assume "Bits_size BITS \<noteq> 1"
    with Bits_size_pos [OF assms(1)] have "1 < Bits_size BITS"
      by simp
    from Bits_value_wide_true [OF m this assms(4)] assms(2, 3) show False
      by simp
  qed
  from Bits_value_one_word [OF m one, of v] assms(2)
  have "x = [v AND push_bit (bitSpill BITS) (NOT 0)]"
    by simp
  with assms(3) operator_bool_one_word [OF one] have z: "v AND push_bit (bitSpill BITS) (NOT 0) = 0"
    by simp
  have "bitSpill BITS \<le> BITS"
    by (simp add: bitSpill_def)
  with z have "take_bit BITS v = v"
    by (rule and_push_bit_zero_take_bit)
  with one show ?thesis
    by simp
qed

text \<open>
  Claim C6. The value constructed from the word 0 converts to false, and the value
  constructed from any nonzero word is said to convert to true. For \<open>BITS = 12\<close> the
  words 1 and \<open>0xF\<close> lie within the twelve declared bits, and the constructor turns
  both into the zero value, which converts to false: \<open>fixBack\<close> clears the low four bits
  where it had to clear the bits from position 12 on.
\<close>

theorem Bits_value_12_low_bits_convert_to_false:
  "(1 :: valueType) \<noteq> 0 \<and> take_bit 12 (1 :: valueType) = 1
   \<and> Bits_value 12 1 = Some [0]
   \<and> (0xF :: valueType) \<noteq> 0 \<and> take_bit 12 (0xF :: valueType) = 0xF
   \<and> Bits_value 12 0xF = Some [0]
   \<and> \<not> operator_bool 12 [0]"
proof -
  have t1: "take_bit 12 (1 :: valueType) = 1" by code_simp
  have c1: "Bits_value 12 1 = Some [0]" by code_simp
  have t2: "take_bit 12 (0xF :: valueType) = 0xF" by code_simp
  have c2: "Bits_value 12 0xF = Some [0]" by code_simp
  have b: "\<not> operator_bool 12 [0]" by code_simp
  from t1 c1 t2 c2 b show ?thesis by simp
qed

section \<open>The whole-word phase, and shifts by the total width or more\<close>

text \<open>
  One round of the whole-word phase moves every word one place up (left shift) or down
  (right shift) and clears the vacated word; the phase as a whole moves the array by
  \<open>shift div typeBits\<close> words and leaves \<open>shift mod typeBits\<close> for the sub-word phase.
\<close>

lemma leftShift_move_length: "length (leftShift_move dest i) = length dest"
proof (induction dest i rule: leftShift_move.induct)
  case (1 dest i)
  then show ?case
    by (subst leftShift_move.simps) (simp add: Let_def)
qed

lemma leftShift_move_nth:
  "i \<le> length dest \<Longrightarrow> k < length dest \<Longrightarrow>
     leftShift_move dest i ! k = (if 1 \<le> k \<and> k < i then dest ! (k - 1) else dest ! k)"
proof (induction dest i rule: leftShift_move.induct)
  case (1 dest i)
  show ?case
  proof (cases "i > 1")
    case True
    with "1" show ?thesis
      by (subst leftShift_move.simps) (auto simp: Let_def nth_list_update less_Suc_eq)
  next
    case False
    then show ?thesis
      by (subst leftShift_move.simps) auto
  qed
qed

lemma leftShift_move_step:
  assumes "length dest = count" and "0 < count"
  shows "(leftShift_move dest count)[0 := 0] = 0 # butlast dest"
proof (rule nth_equalityI)
  show "length ((leftShift_move dest count)[0 := 0]) = length (0 # butlast dest)"
    using assms by (simp add: leftShift_move_length)
next
  fix k assume "k < length ((leftShift_move dest count)[0 := 0])"
  then have k: "k < count"
    using assms by (simp add: leftShift_move_length)
  show "(leftShift_move dest count)[0 := 0] ! k = (0 # butlast dest) ! k"
  proof (cases k)
    case 0
    then show ?thesis
      using assms by (simp add: leftShift_move_length)
  next
    case (Suc j)
    with k assms show ?thesis
      by (simp add: leftShift_move_length leftShift_move_nth nth_butlast)
  qed
qed

lemma leftShift_words_eq:
  "length dest = count \<Longrightarrow> 0 < count \<Longrightarrow>
     leftShift_words dest shift count =
       (replicate (min (shift div LENGTH('a)) count) 0 @ take (count - shift div LENGTH('a)) dest,
        shift mod LENGTH('a))"
  for dest :: "'a::len word list"
proof (induction dest shift count rule: leftShift_words.induct)
  case (1 dest shift count)
  let ?w = "LENGTH('a)"
  show ?case
  proof (cases "shift \<ge> ?w")
    case False
    with "1.prems" show ?thesis
      by (subst leftShift_words.simps) simp
  next
    case True
    let ?d = "0 # butlast dest"
    have step: "(leftShift_move dest count)[0 := 0] = ?d"
      using "1.prems" by (rule leftShift_move_step)
    have len: "length ?d = count"
      using "1.prems" by simp
    define q where "q = (shift - ?w) div ?w"
    have q: "shift div ?w = Suc q"
      unfolding q_def using True by (intro le_div_geq) simp_all
    have q': "(shift - ?w) div ?w = q"
      by (simp add: q_def)
    have m: "(shift - ?w) mod ?w = shift mod ?w"
      using True by (simp add: le_mod_geq)
    have "leftShift_words dest shift count = leftShift_words ?d (shift - ?w) count"
      using True by (subst leftShift_words.simps) (simp add: step)
    also have "\<dots> = (replicate (min q count) 0 @ take (count - q) ?d, shift mod ?w)"
      using "1.IH" [OF True] "1.prems" len step q' m by simp
    also have "replicate (min q count) 0 @ take (count - q) ?d
               = replicate (min (Suc q) count) 0 @ take (count - Suc q) dest"
    proof (cases "q < count")
      case True
      then obtain r where r: "count - q = Suc r"
        by (cases "count - q") auto
      have r': "count - Suc q = r"
        using r by simp
      have "take r (butlast dest) = take r dest"
        using r "1.prems" by (simp add: take_butlast)
      with True r show ?thesis
        by (simp add: min_def r' replicate_app_Cons_same)
    next
      case False
      then show ?thesis
        by (simp add: min_def)
    qed
    finally show ?thesis
      by (simp add: q)
  qed
qed


lemma rightShift_move_length: "length (rightShift_move dest count i) = length dest"
proof (induction dest count i rule: rightShift_move.induct)
  case (1 dest count i)
  then show ?case
    by (subst rightShift_move.simps) simp
qed

lemma rightShift_move_nth:
  "count \<le> length dest \<Longrightarrow> k < length dest \<Longrightarrow>
     rightShift_move dest count i ! k =
       (if i \<le> k \<and> k < count - 1 then dest ! (k + 1) else dest ! k)"
proof (induction dest count i rule: rightShift_move.induct)
  case (1 dest count i)
  show ?case
  proof (cases "i < count - 1")
    case True
    with "1" show ?thesis
      by (subst rightShift_move.simps) (auto simp: nth_list_update)
  next
    case False
    then show ?thesis
      by (subst rightShift_move.simps) auto
  qed
qed

lemma rightShift_move_step:
  assumes "length dest = count" and "0 < count"
  shows "(rightShift_move dest count 0)[count - 1 := 0] = tl dest @ [0]"
proof (rule nth_equalityI)
  show "length ((rightShift_move dest count 0)[count - 1 := 0]) = length (tl dest @ [0])"
    using assms by (simp add: rightShift_move_length)
next
  fix k assume "k < length ((rightShift_move dest count 0)[count - 1 := 0])"
  then have k: "k < count"
    using assms by (simp add: rightShift_move_length)
  show "(rightShift_move dest count 0)[count - 1 := 0] ! k = (tl dest @ [0]) ! k"
  proof (cases "k = count - 1")
    case True
    with k assms show ?thesis
      by (simp add: rightShift_move_length nth_append)
  next
    case False
    with k have "k < count - 1"
      by simp
    with k assms show ?thesis
      by (simp add: rightShift_move_length rightShift_move_nth nth_append nth_tl)
  qed
qed

lemma rightShift_words_eq:
  "length dest = count \<Longrightarrow> 0 < count \<Longrightarrow>
     rightShift_words dest shift count =
       (drop (shift div LENGTH('a)) dest @ replicate (min (shift div LENGTH('a)) count) 0,
        shift mod LENGTH('a))"
  for dest :: "'a::len word list"
proof (induction dest shift count rule: rightShift_words.induct)
  case (1 dest shift count)
  let ?w = "LENGTH('a)"
  show ?case
  proof (cases "shift \<ge> ?w")
    case False
    with "1.prems" show ?thesis
      by (subst rightShift_words.simps) simp
  next
    case True
    let ?d = "tl dest @ [0]"
    have step: "(rightShift_move dest count 0)[count - 1 := 0] = ?d"
      using "1.prems" by (rule rightShift_move_step)
    have len: "length ?d = count"
      using "1.prems" by simp
    define q where "q = (shift - ?w) div ?w"
    have q: "shift div ?w = Suc q"
      unfolding q_def using True by (intro le_div_geq) simp_all
    have q': "(shift - ?w) div ?w = q"
      by (simp add: q_def)
    have m: "(shift - ?w) mod ?w = shift mod ?w"
      using True by (simp add: le_mod_geq)
    have "rightShift_words dest shift count = rightShift_words ?d (shift - ?w) count"
      using True step by (subst rightShift_words.simps) simp
    also have "\<dots> = (drop q ?d @ replicate (min q count) 0, shift mod ?w)"
      using "1.IH" [OF True] "1.prems" len step q' m by (simp add: rightShift_move_length)
    also have "drop q ?d @ replicate (min q count) 0
               = drop (Suc q) dest @ replicate (min (Suc q) count) 0"
    proof (cases "q < count")
      case True
      then have "drop q ?d = drop (Suc q) dest @ [0]"
        using "1.prems" by (simp add: drop_Suc)
      with True show ?thesis
        by (simp add: min_def replicate_append_same)
    next
      case False
      with "1.prems" show ?thesis
        by (simp add: min_def drop_Suc)
    qed
    finally show ?thesis
      by (simp add: q)
  qed
qed

lemma replicate_update_same: "(replicate n x)[i := x] = replicate n x"
  by (cases "i < n") (simp_all add: list_update_same_conv list_update_beyond)

lemma leftShift_carry_zero:
  "i \<le> n \<Longrightarrow> leftShift_carry (replicate n 0) shift carryMask i = replicate n 0"
proof (induction i)
  case 0
  show ?case
    by (subst leftShift_carry.simps) simp
next
  case (Suc i)
  then have "replicate n (0 :: 'a word) ! i = 0"
    by simp
  with Suc show ?case
    by (subst leftShift_carry.simps)
       (simp add: Let_def rotateLeft_def replicate_update_same)
qed


lemma rightShift_carry_zero:
  "dest = replicate n 0 \<Longrightarrow> count \<le> n \<Longrightarrow>
     rightShift_carry dest shift carryMask count i = replicate n 0"
proof (induction dest shift carryMask count i rule: rightShift_carry.induct)
  case (1 dest shift carryMask count i)
  show ?case
  proof (cases "i < count")
    case False
    with "1.prems" show ?thesis
      by (subst rightShift_carry.simps) simp
  next
    case True
    with "1.prems" have z: "replicate n (0 :: 'a word) ! i = 0"
      by simp
    have upd: "dest[i - 0 := rotateRight (dest ! i) (unsigned_char shift) AND NOT carryMask,
                    i - 1 := rotateRight (dest ! i) (unsigned_char shift) AND carryMask]
               = replicate n 0"
      using "1.prems" by (simp add: z rotateRight_def replicate_update_same)
    show ?thesis
      using True "1.IH" [OF True refl refl refl upd "1.prems"(2)]
      by (subst rightShift_carry.simps) (simp add: Let_def)
  qed
qed

lemma whole_words_beyond:
  "0 < count \<Longrightarrow> count * LENGTH('a::len) \<le> n \<Longrightarrow> min (n div LENGTH('a)) count = count"
  by (simp add: less_eq_div_iff_mult_less_eq)

text \<open>
  Claim C7. For every array of \<open>count \<ge> 1\<close> words and every shift amount of at least
  \<open>count * wordBits\<close>, \<open>leftShift\<close> and \<open>rightShift\<close> both leave the all-zero array.
\<close>

theorem shift_beyond_width_is_zero:
  fixes dest :: "'a::len word list"
  assumes "length dest = count" and "1 \<le> count" and "count * LENGTH('a) \<le> unat shift"
  shows "leftShift dest shift count = replicate count 0
         \<and> rightShift dest shift count = replicate count 0"
proof -
  let ?s = "unat shift mod LENGTH('a)"
  from assms(2) have pos: "0 < count"
    by simp
  have q: "min (unat shift div LENGTH('a)) count = count"
    using pos assms(3) by (rule whole_words_beyond)
  then have q': "count \<le> unat shift div LENGTH('a)"
    by simp
  have l: "leftShift_words dest (unat shift) count = (replicate count 0, ?s)"
    using leftShift_words_eq [OF assms(1) pos, of "unat shift"] q q' by simp
  have r: "rightShift_words dest (unat shift) count = (replicate count 0, ?s)"
    using rightShift_words_eq [OF assms(1) pos, of "unat shift"] q q' assms(1) by simp
  have "leftShift dest shift count = replicate count 0"
    by (simp add: leftShift_def l Let_def replicate_update_same leftShift_carry_zero pos)
  moreover have "rightShift dest shift count = replicate count 0"
    by (simp add: rightShift_def r Let_def replicate_update_same rightShift_carry_zero pos)
  ultimately show ?thesis
    by simp
qed

theorem shift_beyond_width_is_zero_witness:
  "length [0xAB, 0xCD :: 8 word] = 2 \<and> (1 :: nat) \<le> 2 \<and> 2 * LENGTH(8) \<le> unat (17 :: 8 word)
   \<and> leftShift [0xAB, 0xCD :: 8 word] 17 2 = replicate 2 0
   \<and> rightShift [0xAB, 0xCD :: 8 word] 17 2 = replicate 2 0"
proof -
  have h1: "length [0xAB, 0xCD :: 8 word] = 2" by simp
  have h2: "(1 :: nat) \<le> 2" by simp
  have h3: "2 * LENGTH(8) \<le> unat (17 :: 8 word)" by simp
  from shift_beyond_width_is_zero [OF h1 h2 h3] h1 h2 h3 show ?thesis by blast
qed

section \<open>Array accesses and shift amounts\<close>

subsection \<open>The logged functions compute the same arrays\<close>

lemma leftShift_move_log_fst:
  "fst (leftShift_move_log dest i log) = leftShift_move dest i"
proof (induction dest i log rule: leftShift_move_log.induct)
  case (1 dest i log)
  then show ?case
    by (subst leftShift_move_log.simps, subst leftShift_move.simps) (simp add: Let_def)
qed

lemma leftShift_words_log_fst:
  "(case leftShift_words_log dest shift count log of (d, s, l) \<Rightarrow> (d, s))
     = leftShift_words dest shift count"
proof (induction dest shift count log rule: leftShift_words_log.induct)
  case (1 dest shift count log)
  show ?case
  proof (cases "shift \<ge> LENGTH('a)")
    case False
    then show ?thesis
      by (subst leftShift_words_log.simps, subst leftShift_words.simps) simp
  next
    case True
    obtain d1 l1 where m: "leftShift_move_log dest count log = (d1, l1)"
      by (cases "leftShift_move_log dest count log")
    then have d1: "d1 = leftShift_move dest count"
      using leftShift_move_log_fst [of dest count log] by simp
    show ?thesis
      using True "1.IH" [OF True m [symmetric]] m d1
      by (subst leftShift_words_log.simps, subst leftShift_words.simps) simp
  qed
qed

lemma leftShift_carry_log_fst:
  "fst (leftShift_carry_log dest shift carryMask i log) = leftShift_carry dest shift carryMask i"
proof (induction dest shift carryMask i log rule: leftShift_carry_log.induct)
  case (1 dest shift carryMask i log)
  then show ?case
    by (subst leftShift_carry_log.simps, subst leftShift_carry.simps) (simp add: Let_def)
qed

lemma leftShift_log_fst: "fst (leftShift_log dest shift count) = leftShift dest shift count"
proof -
  obtain d s l where w: "leftShift_words_log dest (unat shift) count [] = (d, s, l)"
    by (cases "leftShift_words_log dest (unat shift) count []")
  then have "leftShift_words dest (unat shift) count = (d, s)"
    using leftShift_words_log_fst [of dest "unat shift" count "[]"] by simp
  with w show ?thesis
    by (simp add: leftShift_log_def leftShift_def Let_def leftShift_carry_log_fst)
qed

lemma rightShift_move_log_fst:
  "fst (rightShift_move_log dest count i log) = rightShift_move dest count i"
proof (induction dest count i log rule: rightShift_move_log.induct)
  case (1 dest count i log)
  then show ?case
    by (subst rightShift_move_log.simps, subst rightShift_move.simps) simp
qed

lemma rightShift_words_log_fst:
  "(case rightShift_words_log dest shift count log of (d, s, l) \<Rightarrow> (d, s))
     = rightShift_words dest shift count"
proof (induction dest shift count log rule: rightShift_words_log.induct)
  case (1 dest shift count log)
  show ?case
  proof (cases "shift \<ge> LENGTH('a)")
    case False
    then show ?thesis
      by (subst rightShift_words_log.simps, subst rightShift_words.simps) simp
  next
    case True
    obtain d1 l1 where m: "rightShift_move_log dest count 0 log = (d1, l1)"
      by (cases "rightShift_move_log dest count 0 log")
    then have d1: "d1 = rightShift_move dest count 0"
      using rightShift_move_log_fst [of dest count 0 log] by simp
    show ?thesis
      using True "1.IH" [OF True m [symmetric]] m d1
      by (subst rightShift_words_log.simps, subst rightShift_words.simps) simp
  qed
qed

lemma rightShift_carry_log_fst:
  "fst (rightShift_carry_log dest shift carryMask count i log)
     = rightShift_carry dest shift carryMask count i"
proof (induction dest shift carryMask count i log rule: rightShift_carry_log.induct)
  case (1 dest shift carryMask count i log)
  then show ?case
    by (subst rightShift_carry_log.simps, subst rightShift_carry.simps) (simp add: Let_def)
qed

lemma rightShift_log_fst: "fst (rightShift_log dest shift count) = rightShift dest shift count"
proof -
  obtain d s l where w: "rightShift_words_log dest (unat shift) count [] = (d, s, l)"
    by (cases "rightShift_words_log dest (unat shift) count []")
  then have "rightShift_words dest (unat shift) count = (d, s)"
    using rightShift_words_log_fst [of dest "unat shift" count "[]"] by simp
  with w show ?thesis
    by (simp add: rightShift_log_def rightShift_def Let_def rightShift_carry_log_fst)
qed


subsection \<open>Every logged access and shift amount is in range\<close>

lemma leftShift_move_log_ok:
  "list_all (event_ok count w) log \<Longrightarrow> i \<le> count \<Longrightarrow>
     list_all (event_ok count w) (snd (leftShift_move_log dest i log))"
proof (induction dest i log rule: leftShift_move_log.induct)
  case (1 dest i log)
  show ?case
  proof (cases "i > 1")
    case False
    with "1.prems" show ?thesis
      by (subst leftShift_move_log.simps) simp
  next
    case True
    with "1.prems" have "i - 1 - 1 < count" and "i - 1 < count"
      by arith+
    with "1.prems" have "list_all (event_ok count w) (log @ [Read (i - 1 - 1), Write (i - 1)])"
      by simp
    with True "1.prems" "1.IH" [OF True refl] show ?thesis
      by (subst leftShift_move_log.simps) (simp add: Let_def)
  qed
qed

lemma leftShift_words_log_ok:
  "0 < count \<Longrightarrow> list_all (event_ok count w) log \<Longrightarrow>
     list_all (event_ok count w) (snd (snd (leftShift_words_log dest shift count log)))
     \<and> fst (snd (leftShift_words_log dest shift count log)) < LENGTH('a)"
  for dest :: "'a::len word list"
proof (induction dest shift count log rule: leftShift_words_log.induct)
  case (1 dest shift count log)
  show ?case
  proof (cases "shift \<ge> LENGTH('a)")
    case False
    with "1.prems" show ?thesis
      by (subst (1 2) leftShift_words_log.simps) simp
  next
    case True
    obtain d1 l1 where m: "leftShift_move_log dest count log = (d1, l1)"
      by (cases "leftShift_move_log dest count log")
    have "list_all (event_ok count w) l1"
      using leftShift_move_log_ok [OF "1.prems"(2) order_refl, of dest] m by simp
    with "1.prems" have "list_all (event_ok count w) (l1 @ [Write 0])"
      by simp
    with True m "1.IH" [OF True m [symmetric] "1.prems"(1)] show ?thesis
      by (subst (1 2) leftShift_words_log.simps) simp
  qed
qed

lemma unsigned_char_small: "shift < w \<Longrightarrow> w \<le> 256 \<Longrightarrow> unsigned_char shift = shift"
  by (simp add: unsigned_char_def)

lemma leftShift_carry_log_ok:
  "list_all (event_ok count w) log \<Longrightarrow> i < count \<Longrightarrow> 0 < shift \<Longrightarrow> shift < w \<Longrightarrow>
   w \<le> 256 \<Longrightarrow>
     list_all (event_ok count w) (snd (leftShift_carry_log dest shift carryMask i log))"
proof (induction dest shift carryMask i log rule: leftShift_carry_log.induct)
  case (1 dest shift carryMask i log)
  show ?case
  proof (cases "i > 0")
    case False
    with "1.prems" show ?thesis
      by (subst leftShift_carry_log.simps) simp
  next
    case True
    let ?log = "log @ [Read (i - 1), Rotate (unsigned_char shift), Write (i - 1 + 0), Write (i - 1 + 1)]"
    have "list_all (event_ok count w) ?log"
      using True "1.prems" by (simp add: unsigned_char_small)
    moreover have "i - 1 < count"
      using "1.prems" by simp
    ultimately have "list_all (event_ok count w)
        (snd (leftShift_carry_log
           (dest[i - 1 + 0 := rotateLeft (dest ! (i - 1)) (unsigned_char shift) AND NOT carryMask,
                 i - 1 + 1 := rotateLeft (dest ! (i - 1)) (unsigned_char shift) AND carryMask])
           shift carryMask (i - 1) ?log))"
      using "1.IH" [OF True refl refl refl refl] "1.prems" by simp
    with True show ?thesis
      by (subst leftShift_carry_log.simps) (simp add: Let_def)
  qed
qed

lemma leftShift_log_ok:
  fixes dest :: "'a::len word list"
  assumes "0 < count" and "LENGTH('a) \<le> 256"
  shows "list_all (event_ok count LENGTH('a)) (snd (leftShift_log dest shift count))"
proof -
  let ?w = "LENGTH('a)"
  obtain d s l where ws: "leftShift_words_log dest (unat shift) count [] = (d, s, l)"
    by (cases "leftShift_words_log dest (unat shift) count []")
  have "list_all (event_ok count ?w) []"
    by simp
  from leftShift_words_log_ok [OF assms(1) this, of dest "unat shift"] ws
  have l: "list_all (event_ok count ?w) l" and s: "s < ?w"
    by simp_all
  show ?thesis
  proof (cases "s = 0")
    case True
    with ws l show ?thesis
      by (simp add: leftShift_log_def)
  next
    case False
    let ?log = "(l @ [Shift s]) @ [Read (count - 1), Shift s, Write (count - 1)]"
    have "list_all (event_ok count ?w) ?log"
      using l s False assms(1) by simp
    then have "list_all (event_ok count ?w)
       (snd (leftShift_carry_log (d[count - 1 := push_bit s (d ! (count - 1))]) s
              (NOT (push_bit s (NOT 0))) (count - 1) ?log))"
      using assms s False by (intro leftShift_carry_log_ok) simp_all
    with ws False show ?thesis
      by (simp add: leftShift_log_def Let_def)
  qed
qed


lemma rightShift_move_log_ok:
  "list_all (event_ok count w) log \<Longrightarrow>
     list_all (event_ok count w) (snd (rightShift_move_log dest count i log))"
proof (induction dest count i log rule: rightShift_move_log.induct)
  case (1 dest count i log)
  show ?case
  proof (cases "i < count - 1")
    case False
    with "1.prems" show ?thesis
      by (subst rightShift_move_log.simps) simp
  next
    case True
    then have "i + 1 < count" and "i < count"
      by arith+
    with "1.prems" have "list_all (event_ok count w) (log @ [Read (i + 1), Write i])"
      by simp
    with True "1.IH" [OF True] show ?thesis
      by (subst rightShift_move_log.simps) simp
  qed
qed

lemma rightShift_words_log_ok:
  "0 < count \<Longrightarrow> list_all (event_ok count w) log \<Longrightarrow>
     list_all (event_ok count w) (snd (snd (rightShift_words_log dest shift count log)))
     \<and> fst (snd (rightShift_words_log dest shift count log)) < LENGTH('a)"
  for dest :: "'a::len word list"
proof (induction dest shift count log rule: rightShift_words_log.induct)
  case (1 dest shift count log)
  show ?case
  proof (cases "shift \<ge> LENGTH('a)")
    case False
    with "1.prems" show ?thesis
      by (subst (1 2) rightShift_words_log.simps) simp
  next
    case True
    obtain d1 l1 where m: "rightShift_move_log dest count 0 log = (d1, l1)"
      by (cases "rightShift_move_log dest count 0 log")
    have "list_all (event_ok count w) l1"
      using rightShift_move_log_ok [OF "1.prems"(2), of dest 0] m by simp
    with "1.prems" have "list_all (event_ok count w) (l1 @ [Write (count - 1)])"
      by simp
    with True m "1.IH" [OF True m [symmetric] "1.prems"(1)] show ?thesis
      by (subst (1 2) rightShift_words_log.simps) simp
  qed
qed

lemma rightShift_carry_log_ok:
  "list_all (event_ok count w) log \<Longrightarrow> 0 < shift \<Longrightarrow> shift < w \<Longrightarrow> w \<le> 256 \<Longrightarrow>
     list_all (event_ok count w) (snd (rightShift_carry_log dest shift carryMask count i log))"
proof (induction dest shift carryMask count i log rule: rightShift_carry_log.induct)
  case (1 dest shift carryMask count i log)
  show ?case
  proof (cases "i < count")
    case False
    with "1.prems" show ?thesis
      by (subst rightShift_carry_log.simps) simp
  next
    case True
    let ?log = "log @ [Read i, Rotate (unsigned_char shift), Write (i - 0), Write (i - 1)]"
    have "i - 1 < count"
      using True by arith
    with True "1.prems" have "list_all (event_ok count w) ?log"
      by (simp add: unsigned_char_small)
    then have "list_all (event_ok count w)
        (snd (rightShift_carry_log
           (dest[i - 0 := rotateRight (dest ! i) (unsigned_char shift) AND NOT carryMask,
                 i - 1 := rotateRight (dest ! i) (unsigned_char shift) AND carryMask])
           shift carryMask count (i + 1) ?log))"
      using "1.IH" [OF True refl refl refl] "1.prems" by simp
    with True show ?thesis
      by (subst rightShift_carry_log.simps) (simp add: Let_def)
  qed
qed

lemma rightShift_log_ok:
  fixes dest :: "'a::len word list"
  assumes "0 < count" and "LENGTH('a) \<le> 256"
  shows "list_all (event_ok count LENGTH('a)) (snd (rightShift_log dest shift count))"
proof -
  let ?w = "LENGTH('a)"
  obtain d s l where ws: "rightShift_words_log dest (unat shift) count [] = (d, s, l)"
    by (cases "rightShift_words_log dest (unat shift) count []")
  have "list_all (event_ok count ?w) []"
    by simp
  from rightShift_words_log_ok [OF assms(1) this, of dest "unat shift"] ws
  have l: "list_all (event_ok count ?w) l" and s: "s < ?w"
    by simp_all
  show ?thesis
  proof (cases "s = 0")
    case True
    with ws l show ?thesis
      by (simp add: rightShift_log_def)
  next
    case False
    let ?log = "(l @ [Shift s]) @ [Read 0, Shift s, Write 0]"
    have "list_all (event_ok count ?w) ?log"
      using l s False assms(1) by simp
    then have "list_all (event_ok count ?w)
       (snd (rightShift_carry_log (d[0 := drop_bit s (d ! 0)]) s
              (rightShift_carryMask s) count 1 ?log))"
      using assms s False by (intro rightShift_carry_log_ok) simp_all
    with ws False show ?thesis
      by (simp add: rightShift_log_def Let_def)
  qed
qed

text \<open>
  Claim C8. For every \<open>count \<ge> 1\<close> and every shift amount, \<open>leftShift\<close> and
  \<open>rightShift\<close> read and write only array indices below \<open>count\<close>, and every
  single-word shift or rotation they perform has an amount strictly between 0 and the
  word width. The logged functions return the arrays of \<open>leftShift\<close> and \<open>rightShift\<close>,
  and every entry of their logs is in range. The rotation amount passes through
  \<^verbatim>\<open>unsigned char\<close>, which holds every amount below the width of an unsigned integer
  type; the width is at most 256 here.
\<close>

theorem shift_accesses_in_range:
  fixes dest :: "'a::len word list"
  assumes "1 \<le> count" and "LENGTH('a) \<le> 256"
  shows "fst (leftShift_log dest shift count) = leftShift dest shift count
         \<and> list_all (event_ok count LENGTH('a)) (snd (leftShift_log dest shift count))
         \<and> fst (rightShift_log dest shift count) = rightShift dest shift count
         \<and> list_all (event_ok count LENGTH('a)) (snd (rightShift_log dest shift count))"
proof -
  from assms(1) have pos: "0 < count"
    by simp
  show ?thesis
    using leftShift_log_ok [OF pos assms(2), of dest shift]
      rightShift_log_ok [OF pos assms(2), of dest shift]
    by (simp add: leftShift_log_fst rightShift_log_fst)
qed

text \<open>
  The witness is a single 8-bit word shifted by 11: one round of the whole-word phase
  writes word 0, the sub-word phase shifts by 3 and touches word 0 alone.
\<close>

theorem shift_accesses_in_range_witness:
  "(1 :: nat) \<le> 1 \<and> LENGTH(8) \<le> 256
   \<and> snd (leftShift_log [5 :: 8 word] 11 1) = [Write 0, Shift 3, Read 0, Shift 3, Write 0]
   \<and> list_all (event_ok 1 LENGTH(8)) (snd (leftShift_log [5 :: 8 word] 11 1))
   \<and> snd (rightShift_log [5 :: 8 word] 11 1) = [Write 0, Shift 3, Read 0, Shift 3, Write 0]
   \<and> list_all (event_ok 1 LENGTH(8)) (snd (rightShift_log [5 :: 8 word] 11 1))"
proof -
  have h1: "(1 :: nat) \<le> 1" by simp
  have h2: "LENGTH(8) \<le> 256" by simp
  have l: "snd (leftShift_log [5 :: 8 word] 11 1) = [Write 0, Shift 3, Read 0, Shift 3, Write 0]"
    by code_simp
  have r: "snd (rightShift_log [5 :: 8 word] 11 1) = [Write 0, Shift 3, Read 0, Shift 3, Write 0]"
    by code_simp
  from shift_accesses_in_range [OF h1 h2, of "[5 :: 8 word]" 11] h1 h2 l r show ?thesis
    by blast
qed

end
